theory Spec2Isabelle
  imports Main "HOL-Library.Word"
begin

section \<open>The Modbus server of qmodbusserver.cpp\<close>

text \<open>
  A shallow embedding of \<^verbatim>\<open>src/serialbus/qmodbusserver.cpp\<close>: the four register tables
  of \<^verbatim>\<open>QModbusServerPrivate\<close>, the accessors \<^verbatim>\<open>data\<close> and \<^verbatim>\<open>setData\<close>, and the
  request dispatcher with its three coil handlers.
\<close>

subsection \<open>Machine integers\<close>

type_synonym quint8 = "8 word"
type_synonym quint16 = "16 word"

text \<open>
  \<^verbatim>\<open>int\<close> and \<^verbatim>\<open>uint\<close> values are integers; the two conversions of C++ are written
  out. An \<^verbatim>\<open>int + uint\<close> sum is computed in \<^verbatim>\<open>uint\<close>, and a comparison of an
  \<^verbatim>\<open>int\<close> with a \<^verbatim>\<open>uint\<close> converts the \<^verbatim>\<open>int\<close>.
\<close>

definition to_uint :: "int \<Rightarrow> int" where
  "to_uint x = x mod 4294967296"

definition to_int :: "int \<Rightarrow> int" where
  "to_int x = (x + 2147483648) mod 4294967296 - 2147483648"

subsection \<open>QVector\<close>

text \<open>
  The operations of Qt's \<^verbatim>\<open>QVector\<close> that the server uses, after the Qt documentation.
  \<^verbatim>\<open>mid(pos, len)\<close> is only called with \<open>pos \<ge> 0\<close>; it returns at most \<open>len\<close> elements
  from \<open>pos\<close> on, all of them when \<open>len\<close> is negative. \<^verbatim>\<open>resize\<close> truncates or pads with
  default-constructed (zero) elements. \<^verbatim>\<open>insert(i, n, v)\<close> puts \<open>n\<close> copies of \<open>v\<close> before
  index \<open>i\<close>. The non-const \<^verbatim>\<open>operator[]\<close> asserts that the index is in range; the
  handlers below check the index where they use it and fail with \<open>IndexOutOfRange\<close>.
\<close>

definition mid :: "'a list \<Rightarrow> int \<Rightarrow> int \<Rightarrow> 'a list" where
  "mid xs pos len =
     (if len < 0 then drop (nat pos) xs else take (nat len) (drop (nat pos) xs))"

definition resize :: "quint16 list \<Rightarrow> nat \<Rightarrow> quint16 list" where
  "resize xs n = take n xs @ replicate (n - length xs) 0"

definition insert_n :: "'a list \<Rightarrow> nat \<Rightarrow> int \<Rightarrow> 'a \<Rightarrow> 'a list" where
  "insert_n xs i n v = take i xs @ replicate (nat n) v @ drop i xs"

subsection \<open>QModbusDataUnit\<close>

datatype RegisterType = Invalid | DiscreteInputs | Coils | InputRegisters | HoldingRegisters

text \<open>
  Modelled from the spec: the class \<^verbatim>\<open>QModbusDataUnit\<close> (qmodbusdataunit.h) is not among
  the sources. A register table has a kind, a signed start address and a sequence of
  16-bit words indexed \<open>0..valueCount-1\<close>; it is valid iff its kind is not \<open>Invalid\<close>.
  \<^verbatim>\<open>value(index)\<close> and \<^verbatim>\<open>setValue(index, v)\<close> take an index into that sequence (the
  server calls \<^verbatim>\<open>newData.value(i - newData.startAddress())\<close>); an index outside the
  sequence reads 0 and writes nothing. \<^verbatim>\<open>valueCount()\<close> is the length of the sequence, as
  an unsigned value (the server converts it: \<^verbatim>\<open>int(newData.valueCount())\<close>).
\<close>

record QModbusDataUnit =
  m_type :: RegisterType
  m_startAddress :: int
  m_values :: "quint16 list"

definition valueCount :: "QModbusDataUnit \<Rightarrow> int" where
  "valueCount u = int (length (m_values u))"

definition isValid :: "QModbusDataUnit \<Rightarrow> bool" where
  "isValid u = (m_type u \<noteq> Invalid)"

definition value_at :: "QModbusDataUnit \<Rightarrow> int \<Rightarrow> quint16" where
  "value_at u index =
     (if 0 \<le> index \<and> index < valueCount u then m_values u ! nat index else 0)"

definition setValue :: "QModbusDataUnit \<Rightarrow> int \<Rightarrow> quint16 \<Rightarrow> QModbusDataUnit" where
  "setValue u index newValue =
     (if 0 \<le> index \<and> index < valueCount u
      then u\<lparr>m_values := (m_values u)[nat index := newValue]\<rparr> else u)"

definition setValues :: "QModbusDataUnit \<Rightarrow> quint16 list \<Rightarrow> QModbusDataUnit" where
  "setValues u newValues = u\<lparr>m_values := newValues\<rparr>"

subsection \<open>Protocol data units\<close>

text \<open>
  Modelled from the spec: the classes \<^verbatim>\<open>QModbusPdu\<close>, \<^verbatim>\<open>QModbusRequest\<close>,
  \<^verbatim>\<open>QModbusResponse\<close> and \<^verbatim>\<open>QModbusExceptionResponse\<close> (qmodbuspdu.h) are not among the
  sources. A request is a function code and payload bytes; 16-bit fields are big-endian.
  A payload too short for the fields a handler decodes is not decodable (the handler's
  locals would stay uninitialised): \<open>decodeData\<close> returns \<open>None\<close> and the handler fails
  with \<open>Undecodable\<close>. An exception response keeps the request's function code (sent
  with bit 7 set) and an exception code.
\<close>

record QModbusPdu =
  functionCode :: quint8
  pduData :: "quint8 list"

datatype ExceptionCode = IllegalFunction | IllegalDataAddress | IllegalDataValue

datatype QModbusResponse =
    QModbusResponse quint8 "quint8 list"
  | QModbusExceptionResponse quint8 ExceptionCode

definition word16 :: "quint8 \<Rightarrow> quint8 \<Rightarrow> quint16" where
  "word16 hi lo = of_nat (256 * unat hi + unat lo)"

definition encode16 :: "quint16 \<Rightarrow> quint8 list" where
  "encode16 w = [of_nat (unat w div 256), of_nat (unat w mod 256)]"

fun decodeData2 :: "quint8 list \<Rightarrow> (quint16 \<times> quint16) option" where
  "decodeData2 (a1 # a0 # b1 # b0 # rest) = Some (word16 a1 a0, word16 b1 b0)"
| "decodeData2 _ = None"

fun decodeData3 :: "quint8 list \<Rightarrow> (quint16 \<times> quint16 \<times> quint8) option" where
  "decodeData3 (a1 # a0 # b1 # b0 # c # rest) = Some (word16 a1 a0, word16 b1 b0, c)"
| "decodeData3 _ = None"

text \<open>The function codes of \<^verbatim>\<open>QModbusPdu::FunctionCode\<close>, with their Modbus values.\<close>

abbreviation ReadCoils :: quint8 where "ReadCoils \<equiv> 0x01"
abbreviation ReadDiscreteInputs :: quint8 where "ReadDiscreteInputs \<equiv> 0x02"
abbreviation ReadHoldingRegisters :: quint8 where "ReadHoldingRegisters \<equiv> 0x03"
abbreviation ReadInputRegisters :: quint8 where "ReadInputRegisters \<equiv> 0x04"
abbreviation WriteSingleCoil :: quint8 where "WriteSingleCoil \<equiv> 0x05"
abbreviation WriteSingleRegister :: quint8 where "WriteSingleRegister \<equiv> 0x06"
abbreviation ReadExceptionStatus :: quint8 where "ReadExceptionStatus \<equiv> 0x07"
abbreviation Diagnostics :: quint8 where "Diagnostics \<equiv> 0x08"
abbreviation GetCommEventCounter :: quint8 where "GetCommEventCounter \<equiv> 0x0B"
abbreviation GetCommEventLog :: quint8 where "GetCommEventLog \<equiv> 0x0C"
abbreviation WriteMultipleCoils :: quint8 where "WriteMultipleCoils \<equiv> 0x0F"

subsection \<open>The server state\<close>

record QModbusServerPrivate =
  m_discreteInputs :: QModbusDataUnit
  m_coils :: QModbusDataUnit
  m_inputRegisters :: QModbusDataUnit
  m_holdingRegisters :: QModbusDataUnit

datatype fault = Undecodable | IndexOutOfRange

type_synonym 'a result = "fault + 'a"

subsection \<open>processCustomRequest\<close>

definition processCustomRequest :: "QModbusPdu \<Rightarrow> QModbusResponse" where
  "processCustomRequest request = QModbusExceptionResponse (functionCode request) IllegalFunction"

subsection \<open>processReadCoilsRequest\<close>

text \<open>\<^verbatim>\<open>byte[currentBit] = b\<close> on a \<^verbatim>\<open>std::bitset<8>\<close>.\<close>

definition assign_bit :: "quint8 \<Rightarrow> nat \<Rightarrow> bool \<Rightarrow> quint8" where
  "assign_bit byte currentBit b =
     (if b then set_bit currentBit byte else unset_bit currentBit byte)"

text \<open>
  The inner loop \<^verbatim>\<open>for (currentBit = 0; currentBit < 8; ++currentBit)
  byte[currentBit] = data[address++]\<close>. The running index \<open>address\<close> is a \<^verbatim>\<open>quint16\<close> in
  the source; it stays below \<open>8 * 256\<close>, so it is a \<open>nat\<close> here.
\<close>

function fillByte :: "quint16 list \<Rightarrow> quint8 \<Rightarrow> nat \<Rightarrow> nat \<Rightarrow> (quint8 \<times> nat) result" where
  "fillByte data byte address currentBit =
     (if currentBit < 8
      then (if address < length data
            then fillByte data (assign_bit byte currentBit (data ! address \<noteq> 0))
                   (address + 1) (currentBit + 1)
            else Inl IndexOutOfRange)
      else Inr (byte, address))"
  by pat_completeness auto
termination
  by (relation "measure (\<lambda>(data, byte, address, currentBit). 8 - currentBit)") auto

text \<open>The outer loop \<^verbatim>\<open>for (i = 0; i < byteCount; ++i)\<close>, appending one byte per round.\<close>

function packBytes :: "quint16 list \<Rightarrow> nat \<Rightarrow> nat \<Rightarrow> nat \<Rightarrow> quint8 list \<Rightarrow> quint8 list result" where
  "packBytes data byteCount address i bytes =
     (if i < byteCount
      then (case fillByte data 0 address 0 of
              Inl e \<Rightarrow> Inl e
            | Inr (byte, address') \<Rightarrow> packBytes data byteCount address' (i + 1) (bytes @ [byte]))
      else Inr bytes)"
  by pat_completeness auto
termination
  by (relation "measure (\<lambda>(data, byteCount, address, i, bytes). byteCount - i)") auto

text \<open>
  Lines 410 to 428: the requested range is padded to whole bytes and packed. The result
  is the byte count and the bytes.
\<close>

definition packCoils :: "quint16 list \<Rightarrow> quint16 \<Rightarrow> (quint8 \<times> quint8 list) result" where
  "packCoils data0 numberOfCoils =
     (let byteCount0 = (ucast (numberOfCoils div 8) :: quint8);
          (byteCount, data) =
             (if length data0 mod 8 \<noteq> 0
              then (let byteCount1 = byteCount0 + 1 in
                    (byteCount1,
                     insert_n (resize data0 (unat byteCount1 * 8)) (unat numberOfCoils)
                       (int (unat byteCount1 * 8) - int (unat numberOfCoils)) 0))
              else (byteCount0, data0))
      in case packBytes data (unat byteCount) 0 0 [] of
           Inl e \<Rightarrow> Inl e
         | Inr bytes \<Rightarrow> Inr (byteCount, bytes))"

definition processReadCoilsRequest ::
  "QModbusServerPrivate \<Rightarrow> QModbusPdu \<Rightarrow> (QModbusResponse \<times> QModbusServerPrivate) result" where
  "processReadCoilsRequest s request =
     (case decodeData2 (pduData request) of
        None \<Rightarrow> Inl Undecodable
      | Some (address, numberOfCoils) \<Rightarrow>
          if numberOfCoils < 0x0001 \<or> numberOfCoils > 0x07D0
          then Inr (QModbusExceptionResponse (functionCode request) IllegalDataValue, s)
          else if m_startAddress (m_coils s) > uint address
                  \<or> to_uint (m_startAddress (m_coils s) + valueCount (m_coils s))
                      < uint address + uint numberOfCoils
          then Inr (QModbusExceptionResponse (functionCode request) IllegalDataAddress, s)
          else (case packCoils (mid (m_values (m_coils s)) (uint address) (uint numberOfCoils))
                       numberOfCoils of
                  Inl e \<Rightarrow> Inl e
                | Inr (byteCount, bytes) \<Rightarrow>
                    Inr (QModbusResponse (functionCode request) (byteCount # bytes), s)))"

subsection \<open>processWriteSingleCoilRequest\<close>

definition processWriteSingleCoilRequest ::
  "QModbusServerPrivate \<Rightarrow> QModbusPdu \<Rightarrow> (QModbusResponse \<times> QModbusServerPrivate) result" where
  "processWriteSingleCoilRequest s request =
     (case decodeData2 (pduData request) of
        None \<Rightarrow> Inl Undecodable
      | Some (address, val) \<Rightarrow>
          if val \<noteq> 0x0000 \<and> val \<noteq> 0xFF00
          then Inr (QModbusExceptionResponse (functionCode request) IllegalDataValue, s)
          else if m_startAddress (m_coils s) > uint address
                  \<or> to_uint (m_startAddress (m_coils s) + valueCount (m_coils s)) < uint address
          then Inr (QModbusExceptionResponse (functionCode request) IllegalDataAddress, s)
          else (let data = m_values (m_coils s) in
                if unat address < length data
                then Inr (QModbusResponse (functionCode request) (encode16 address @ encode16 val),
                          s\<lparr>m_coils := setValues (m_coils s) (data[unat address := val])\<rparr>)
                else Inl IndexOutOfRange))"

subsection \<open>processWriteMultipleCoilsRequest\<close>

text \<open>
  The inner loop \<^verbatim>\<open>for (currentBit -= 1; currentBit >= 0; --currentBit)
  values[--coil] = currentByte[currentBit]\<close>; the argument counts the rounds left, so
  round \<open>Suc k\<close> handles bit \<open>k\<close>. \<open>coil\<close> is a \<^verbatim>\<open>quint16\<close> and wraps.
\<close>

fun writeBits :: "quint16 list \<Rightarrow> quint16 \<Rightarrow> quint8 \<Rightarrow> nat \<Rightarrow> (quint16 list \<times> quint16) result" where
  "writeBits vals coil currentByte 0 = Inr (vals, coil)"
| "writeBits vals coil currentByte (Suc k) =
     (let coil' = coil - 1 in
      if unat coil' < length vals
      then writeBits (vals[unat coil' := of_bool (bit currentByte k)]) coil' currentByte k
      else Inl IndexOutOfRange)"

text \<open>The \<^verbatim>\<open>foreach\<close> over the reversed payload; after the first byte \<open>currentBit\<close> is 8.\<close>

fun writeBytes :: "quint16 list \<Rightarrow> quint16 \<Rightarrow> nat \<Rightarrow> quint8 list \<Rightarrow> quint16 list result" where
  "writeBytes vals coil currentBit [] = Inr vals"
| "writeBytes vals coil currentBit (currentByte # bytes) =
     (case writeBits vals coil currentByte currentBit of
        Inl e \<Rightarrow> Inl e
      | Inr (vals', coil') \<Rightarrow> writeBytes vals' coil' 8 bytes)"

text \<open>
  Lines 479 to 492. \<open>currentBit\<close> starts at \<open>8 - (byteCount * 8 - numberOfCoils)\<close>, a
  \<^verbatim>\<open>qint32\<close>; when it is not positive the first byte writes nothing, as with \<open>nat\<close>.
\<close>

definition unpackCoils ::
  "quint16 list \<Rightarrow> quint16 \<Rightarrow> quint16 \<Rightarrow> quint8 \<Rightarrow> quint8 list \<Rightarrow> quint16 list result" where
  "unpackCoils vals address numberOfCoils byteCount payload =
     writeBytes vals (address + numberOfCoils)
       (nat (8 - (int (unat byteCount) * 8 - int (unat numberOfCoils)))) (rev payload)"

definition processWriteMultipleCoilsRequest ::
  "QModbusServerPrivate \<Rightarrow> QModbusPdu \<Rightarrow> (QModbusResponse \<times> QModbusServerPrivate) result" where
  "processWriteMultipleCoilsRequest s request =
     (case decodeData3 (pduData request) of
        None \<Rightarrow> Inl Undecodable
      | Some (address, numberOfCoils, byteCount) \<Rightarrow>
          (let expectedBytes0 = (ucast (numberOfCoils div 8) :: quint8);
               expectedBytes = (if numberOfCoils mod 8 \<noteq> 0 then expectedBytes0 + 1
                                else expectedBytes0)
           in if numberOfCoils < 0x0001 \<or> numberOfCoils > 0x07B0 \<or> expectedBytes \<noteq> byteCount
              then Inr (QModbusExceptionResponse (functionCode request) IllegalDataValue, s)
              else if m_startAddress (m_coils s) > uint address
                      \<or> to_uint (m_startAddress (m_coils s) + valueCount (m_coils s))
                          < uint address + uint numberOfCoils
              then Inr (QModbusExceptionResponse (functionCode request) IllegalDataAddress, s)
              else (case unpackCoils (m_values (m_coils s)) address numberOfCoils byteCount
                           (drop 5 (pduData request)) of
                      Inl e \<Rightarrow> Inl e
                    | Inr vals \<Rightarrow>
                        Inr (QModbusResponse (functionCode request)
                               (encode16 address @ encode16 numberOfCoils),
                             s\<lparr>m_coils := setValues (m_coils s) vals\<rparr>))))"

subsection \<open>processRequest\<close>

text \<open>
  The \<^verbatim>\<open>switch\<close> of lines 364 to 389: a case label without \<^verbatim>\<open>break\<close> falls through
  to the next \<^verbatim>\<open>return\<close>.
\<close>

definition processRequest ::
  "QModbusServerPrivate \<Rightarrow> QModbusPdu \<Rightarrow> (QModbusResponse \<times> QModbusServerPrivate) result" where
  "processRequest s request =
     (let code = functionCode request in
      if code = ReadCoils then processReadCoilsRequest s request
      else if code = ReadDiscreteInputs \<or> code = ReadHoldingRegisters
              \<or> code = ReadInputRegisters \<or> code = WriteSingleCoil
      then processWriteSingleCoilRequest s request
      else if code = WriteSingleRegister \<or> code = ReadExceptionStatus \<or> code = Diagnostics
              \<or> code = GetCommEventCounter \<or> code = GetCommEventLog
              \<or> code = WriteMultipleCoils
      then processWriteMultipleCoilsRequest s request
      else Inr (processCustomRequest request, s))"

subsection \<open>data and setData\<close>

text \<open>
  The \<^verbatim>\<open>switch\<close> on the register type that selects one of the four tables; \<open>None\<close> is
  the \<^verbatim>\<open>return false\<close> of the case \<open>Invalid\<close>.
\<close>

fun selectTable :: "QModbusServerPrivate \<Rightarrow> RegisterType \<Rightarrow> QModbusDataUnit option" where
  "selectTable s Invalid = None"
| "selectTable s DiscreteInputs = Some (m_discreteInputs s)"
| "selectTable s Coils = Some (m_coils s)"
| "selectTable s InputRegisters = Some (m_inputRegisters s)"
| "selectTable s HoldingRegisters = Some (m_holdingRegisters s)"

fun storeTable :: "QModbusServerPrivate \<Rightarrow> RegisterType \<Rightarrow> QModbusDataUnit \<Rightarrow> QModbusServerPrivate" where
  "storeTable s Invalid u = s"
| "storeTable s DiscreteInputs u = s\<lparr>m_discreteInputs := u\<rparr>"
| "storeTable s Coils u = s\<lparr>m_coils := u\<rparr>"
| "storeTable s InputRegisters u = s\<lparr>m_inputRegisters := u\<rparr>"
| "storeTable s HoldingRegisters u = s\<lparr>m_holdingRegisters := u\<rparr>"

text \<open>
  \<^verbatim>\<open>bool QModbusServer::data(QModbusDataUnit *newData) const\<close>: the pointer is an option
  (\<open>None\<close> is the null pointer); the result is the returned flag and the unit the pointer
  refers to afterwards.
\<close>

definition data :: "QModbusServerPrivate \<Rightarrow> QModbusDataUnit option \<Rightarrow> bool \<times> QModbusDataUnit option" where
  "data s newData =
     (case newData of
        None \<Rightarrow> (False, None)
      | Some nd \<Rightarrow>
          (case selectTable s (m_type nd) of
             None \<Rightarrow> (False, Some nd)
           | Some current \<Rightarrow>
               if m_startAddress nd < 0 then (True, Some current)
               else
                 (let internalRangeEndAddress =
                        to_int (to_uint (to_uint (m_startAddress current + valueCount current) - 1))
                  in if m_startAddress nd < m_startAddress current
                        \<or> m_startAddress nd > internalRangeEndAddress
                     then (False, Some nd)
                     else
                       (let rangeEndAddress =
                              to_int (to_uint (to_uint (m_startAddress nd + valueCount nd) - 1))
                        in if rangeEndAddress < m_startAddress current
                              \<or> rangeEndAddress > internalRangeEndAddress
                           then (False, Some nd)
                           else (True, Some (setValues nd
                                   (mid (m_values current) (m_startAddress nd)
                                      (to_int (valueCount nd)))))))))"

text \<open>\<^verbatim>\<open>bool QModbusServer::setData(RegisterType table, quint16 address, quint16 data)\<close>.\<close>

definition setData1 ::
  "QModbusServerPrivate \<Rightarrow> RegisterType \<Rightarrow> quint16 \<Rightarrow> quint16 \<Rightarrow> bool \<times> QModbusServerPrivate" where
  "setData1 s table address newValue =
     (case selectTable s table of
        None \<Rightarrow> (False, s)
      | Some unit \<Rightarrow>
          if \<not> isValid unit
             \<or> uint address < m_startAddress unit
             \<or> uint address \<ge> to_uint (m_startAddress unit + valueCount unit)
          then (False, s)
          else (True, storeTable s table (setValue unit (uint address) newValue)))"

text \<open>
  The loop of lines 288 to 290:
  \<^verbatim>\<open>current->setValue(i, newData.value(i - newData.startAddress()))\<close>.
\<close>

function setDataLoop :: "QModbusDataUnit \<Rightarrow> QModbusDataUnit \<Rightarrow> int \<Rightarrow> QModbusDataUnit" where
  "setDataLoop current newData i =
     (if i < m_startAddress newData + to_int (valueCount newData)
      then setDataLoop (setValue current i (value_at newData (i - m_startAddress newData)))
             newData (i + 1)
      else current)"
  by pat_completeness auto
termination
  by (relation "measure (\<lambda>(current, newData, i).
        nat (m_startAddress newData + to_int (valueCount newData) - i))") auto

text \<open>\<^verbatim>\<open>bool QModbusServer::setData(const QModbusDataUnit &newData)\<close>.\<close>

definition setData :: "QModbusServerPrivate \<Rightarrow> QModbusDataUnit \<Rightarrow> bool \<times> QModbusServerPrivate" where
  "setData s newData =
     (case selectTable s (m_type newData) of
        None \<Rightarrow> (False, s)
      | Some current \<Rightarrow>
          if \<not> isValid current then (False, s)
          else
            (let internalRangeEndAddress =
                   to_int (to_uint (to_uint (m_startAddress current + valueCount current) - 1))
             in if m_startAddress newData < m_startAddress current
                   \<or> m_startAddress newData > internalRangeEndAddress
                then (False, s)
                else
                  (let rangeEndAddress =
                         to_int (to_uint (to_uint (m_startAddress newData + valueCount newData) - 1))
                   in if rangeEndAddress < m_startAddress current
                         \<or> rangeEndAddress > internalRangeEndAddress
                      then (False, s)
                      else (True, storeTable s (m_type newData)
                              (setDataLoop current newData (m_startAddress newData))))))"

subsection \<open>Example states\<close>

text \<open>A server whose coils table starts at \<open>start\<close> and holds \<open>vs\<close>; the other tables are empty.\<close>

definition coilsServer :: "int \<Rightarrow> quint16 list \<Rightarrow> QModbusServerPrivate" where
  "coilsServer start vs =
     \<lparr>m_discreteInputs = \<lparr>m_type = DiscreteInputs, m_startAddress = 0, m_values = []\<rparr>,
      m_coils = \<lparr>m_type = Coils, m_startAddress = start, m_values = vs\<rparr>,
      m_inputRegisters = \<lparr>m_type = InputRegisters, m_startAddress = 0, m_values = []\<rparr>,
      m_holdingRegisters = \<lparr>m_type = HoldingRegisters, m_startAddress = 0, m_values = []\<rparr>\<rparr>"

text \<open>A server with four tables of different contents.\<close>

definition exampleServer :: QModbusServerPrivate where
  "exampleServer =
     \<lparr>m_discreteInputs = \<lparr>m_type = DiscreteInputs, m_startAddress = 0, m_values = [1,0]\<rparr>,
      m_coils = \<lparr>m_type = Coils, m_startAddress = 2, m_values = [1,1,0,0]\<rparr>,
      m_inputRegisters = \<lparr>m_type = InputRegisters, m_startAddress = 0, m_values = [7,8,9]\<rparr>,
      m_holdingRegisters = \<lparr>m_type = HoldingRegisters, m_startAddress = 1, m_values = [5]\<rparr>\<rparr>"

section \<open>Properties\<close>

text \<open>The two loops of Read Coils are unfolded by hand, one round at a time.\<close>

declare fillByte.simps [simp del] packBytes.simps [simp del]

subsection \<open>Frame lemmas of the handlers\<close>

lemma processReadCoilsRequest_state:
  "processReadCoilsRequest s request = Inr (response, s') \<Longrightarrow> s' = s"
  by (auto simp: processReadCoilsRequest_def split: option.splits if_splits sum.splits prod.splits)

lemma processWriteSingleCoilRequest_frame:
  "processWriteSingleCoilRequest s request = Inr (response, s') \<Longrightarrow>
     m_discreteInputs s' = m_discreteInputs s
       \<and> m_inputRegisters s' = m_inputRegisters s
       \<and> m_holdingRegisters s' = m_holdingRegisters s"
  by (auto simp: processWriteSingleCoilRequest_def Let_def split: option.splits if_splits)

lemma processWriteMultipleCoilsRequest_frame:
  "processWriteMultipleCoilsRequest s request = Inr (response, s') \<Longrightarrow>
     m_discreteInputs s' = m_discreteInputs s
       \<and> m_inputRegisters s' = m_inputRegisters s
       \<and> m_holdingRegisters s' = m_holdingRegisters s"
  by (auto simp: processWriteMultipleCoilsRequest_def Let_def
      split: option.splits if_splits sum.splits)

lemma processRequest_cases:
  assumes "processRequest s request = Inr (response, s')"
  obtains (readCoils) "processReadCoilsRequest s request = Inr (response, s')"
    | (writeSingle) "processWriteSingleCoilRequest s request = Inr (response, s')"
    | (writeMultiple) "processWriteMultipleCoilsRequest s request = Inr (response, s')"
    | (custom) "s' = s"
  using assms by (auto simp: processRequest_def Let_def split: if_splits)

subsection \<open>Evaluations used below\<close>

lemma writeSingleCoil_off_at_0:
  "processWriteSingleCoilRequest (coilsServer 0 [1,0,0,0,0,0,0,0])
       \<lparr>functionCode = code, pduData = [0,0,0,0]\<rparr>
     = Inr (QModbusResponse code [0,0,0,0], coilsServer 0 [0,0,0,0,0,0,0,0])"
  by (simp add: processWriteSingleCoilRequest_def coilsServer_def
      word16_def encode16_def to_uint_def valueCount_def setValues_def)

subsection \<open>The dispatcher\<close>

text \<open>
  A function code that is none of the case labels before \<^verbatim>\<open>WriteMultipleCoils\<close> reaches
  the hook: the answer is the IllegalFunction exception with the request's function code.
\<close>

lemma processRequest_unlisted_code:
  assumes "functionCode request \<notin> {ReadCoils, ReadDiscreteInputs, ReadHoldingRegisters,
             ReadInputRegisters, WriteSingleCoil, WriteSingleRegister, ReadExceptionStatus,
             Diagnostics, GetCommEventCounter, GetCommEventLog, WriteMultipleCoils}"
  shows "processRequest s request
           = Inr (QModbusExceptionResponse (functionCode request) IllegalFunction, s)"
  using assms by (simp add: processRequest_def processCustomRequest_def)

text \<open>
  C1 (fails on the code). The claim: every request whose function code is not ReadCoils,
  WriteSingleCoil or WriteMultipleCoils gets the result of \<open>processCustomRequest\<close>.
  The code: \<open>ReadDiscreteInputs\<close> has no \<^verbatim>\<open>break\<close> and falls through to the Write Single
  Coil handler. A ReadDiscreteInputs request with payload \<open>00 00 00 00\<close> on a table whose
  coil 0 is set clears that coil and is answered with an echo, not with the exception
  response of the hook.
\<close>

theorem processRequest_ReadDiscreteInputs_writes_coil:
  "processRequest (coilsServer 0 [1,0,0,0,0,0,0,0])
       \<lparr>functionCode = ReadDiscreteInputs, pduData = [0,0,0,0]\<rparr>
     = Inr (QModbusResponse ReadDiscreteInputs [0,0,0,0], coilsServer 0 [0,0,0,0,0,0,0,0])
   \<and> processRequest (coilsServer 0 [1,0,0,0,0,0,0,0])
       \<lparr>functionCode = ReadDiscreteInputs, pduData = [0,0,0,0]\<rparr>
     \<noteq> Inr (processCustomRequest \<lparr>functionCode = ReadDiscreteInputs, pduData = [0,0,0,0]\<rparr>,
            coilsServer 0 [1,0,0,0,0,0,0,0])"
  by (simp add: processRequest_def writeSingleCoil_off_at_0 processCustomRequest_def)

text \<open>
  C9. Whatever the request, a dispatch that returns leaves the discrete-inputs, the
  input-registers and the holding-registers tables as they were.
\<close>

theorem processRequest_other_tables_unchanged:
  assumes "processRequest s request = Inr (response, s')"
  shows "m_discreteInputs s' = m_discreteInputs s
       \<and> m_inputRegisters s' = m_inputRegisters s
       \<and> m_holdingRegisters s' = m_holdingRegisters s"
  using assms
proof (cases rule: processRequest_cases)
  case readCoils
  then have "s' = s" by (rule processReadCoilsRequest_state)
  then show ?thesis by simp
next
  case writeSingle
  then show ?thesis by (rule processWriteSingleCoilRequest_frame)
next
  case writeMultiple
  then show ?thesis by (rule processWriteMultipleCoilsRequest_frame)
next
  case custom
  then show ?thesis by simp
qed

theorem processRequest_other_tables_unchanged_witness:
  "processRequest (coilsServer 0 [1,0,0,0,0,0,0,0])
       \<lparr>functionCode = WriteSingleCoil, pduData = [0,0,0,0]\<rparr>
     = Inr (QModbusResponse WriteSingleCoil [0,0,0,0], coilsServer 0 [0,0,0,0,0,0,0,0])
   \<and> m_discreteInputs (coilsServer 0 [0,0,0,0,0,0,0,0])
       = m_discreteInputs (coilsServer 0 [1,0,0,0,0,0,0,0])
   \<and> m_inputRegisters (coilsServer 0 [0,0,0,0,0,0,0,0])
       = m_inputRegisters (coilsServer 0 [1,0,0,0,0,0,0,0])
   \<and> m_holdingRegisters (coilsServer 0 [0,0,0,0,0,0,0,0])
       = m_holdingRegisters (coilsServer 0 [1,0,0,0,0,0,0,0])"
proof -
  have run: "processRequest (coilsServer 0 [1,0,0,0,0,0,0,0])
       \<lparr>functionCode = WriteSingleCoil, pduData = [0,0,0,0]\<rparr>
     = Inr (QModbusResponse WriteSingleCoil [0,0,0,0], coilsServer 0 [0,0,0,0,0,0,0,0])"
    by (simp add: processRequest_def writeSingleCoil_off_at_0)
  from processRequest_other_tables_unchanged [OF run] run show ?thesis
    by simp
qed

subsection \<open>Write Single Coil\<close>

text \<open>
  C2 (fails on the code). The claim: for a value of 0x0000 or 0xFF00 the handler answers
  IllegalDataAddress iff the address is below \<open>startAddress\<close> or at least
  \<open>startAddress + valueCount\<close>. The code compares with \<open><\<close> where the bound needs
  \<open><=\<close>: the address \<open>startAddress + valueCount\<close>, one past the table, passes the check,
  and the handler then writes \<open>data[address]\<close> outside the vector. Here the table has the
  addresses 0 to 7 and the request writes address 8.
\<close>

theorem processWriteSingleCoilRequest_one_past_end:
  "processWriteSingleCoilRequest (coilsServer 0 [0,0,0,0,0,0,0,0])
       \<lparr>functionCode = WriteSingleCoil, pduData = [0,8,0,0]\<rparr>
     = Inl IndexOutOfRange"
  by (simp add: processWriteSingleCoilRequest_def coilsServer_def
      word16_def to_uint_def valueCount_def)

subsection \<open>Read Coils\<close>

text \<open>
  C4 (fails on the code). The claim: with any start address, a valid Read Coils request
  packs the words at the positions \<open>address - startAddress\<close> onwards. The code takes
  \<^verbatim>\<open>m_coils.values().mid(address, numberOfCoils)\<close>, the positions \<open>address\<close> onwards. On a
  table that starts at address 2 and holds \<open>1, 1, 0, 0\<close>, reading two coils at address 2
  passes the range check and returns the byte 0x00 (the words at positions 2 and 3), where
  the coils at addresses 2 and 3 are both set.
\<close>

theorem processReadCoilsRequest_ignores_startAddress:
  "processReadCoilsRequest (coilsServer 2 [1,1,0,0])
       \<lparr>functionCode = ReadCoils, pduData = [0,2,0,2]\<rparr>
     = Inr (QModbusResponse ReadCoils [1, 0], coilsServer 2 [1,1,0,0])"
  by code_simp

subsection \<open>data and setData\<close>

text \<open>
  C7. A query with a negative start address and the register type of one of the four
  tables (any type but \<open>Invalid\<close>) succeeds, and the query unit becomes that table as it
  is stored: the discrete inputs table for \<open>DiscreteInputs\<close>, the coils table for
  \<open>Coils\<close>, the input registers table for \<open>InputRegisters\<close>, the holding registers
  table for \<open>HoldingRegisters\<close>, whatever the query's value count and the table's
  contents.
\<close>

theorem data_negative_startAddress:
  assumes "m_startAddress nd < 0"
  shows "(m_type nd = DiscreteInputs \<longrightarrow> data s (Some nd) = (True, Some (m_discreteInputs s)))
       \<and> (m_type nd = Coils \<longrightarrow> data s (Some nd) = (True, Some (m_coils s)))
       \<and> (m_type nd = InputRegisters \<longrightarrow> data s (Some nd) = (True, Some (m_inputRegisters s)))
       \<and> (m_type nd = HoldingRegisters \<longrightarrow> data s (Some nd) = (True, Some (m_holdingRegisters s)))"
  using assms by (simp add: data_def)

theorem data_negative_startAddress_witness:
  "data exampleServer (Some \<lparr>m_type = DiscreteInputs, m_startAddress = -1, m_values = [0,0,0]\<rparr>)
     = (True, Some \<lparr>m_type = DiscreteInputs, m_startAddress = 0, m_values = [1,0]\<rparr>)
   \<and> data exampleServer (Some \<lparr>m_type = Coils, m_startAddress = -1, m_values = [0]\<rparr>)
     = (True, Some \<lparr>m_type = Coils, m_startAddress = 2, m_values = [1,1,0,0]\<rparr>)
   \<and> data exampleServer (Some \<lparr>m_type = InputRegisters, m_startAddress = -7, m_values = []\<rparr>)
     = (True, Some \<lparr>m_type = InputRegisters, m_startAddress = 0, m_values = [7,8,9]\<rparr>)
   \<and> data exampleServer (Some \<lparr>m_type = HoldingRegisters, m_startAddress = -1, m_values = [0,0]\<rparr>)
     = (True, Some \<lparr>m_type = HoldingRegisters, m_startAddress = 1, m_values = [5]\<rparr>)"
  using
    data_negative_startAddress
      [of "\<lparr>m_type = DiscreteInputs, m_startAddress = -1, m_values = [0,0,0]\<rparr>" exampleServer]
    data_negative_startAddress
      [of "\<lparr>m_type = Coils, m_startAddress = -1, m_values = [0]\<rparr>" exampleServer]
    data_negative_startAddress
      [of "\<lparr>m_type = InputRegisters, m_startAddress = -7, m_values = []\<rparr>" exampleServer]
    data_negative_startAddress
      [of "\<lparr>m_type = HoldingRegisters, m_startAddress = -1, m_values = [0,0]\<rparr>" exampleServer]
  by (simp add: exampleServer_def)

text \<open>
  C8 (fails on the code). The claim: a successful range write overwrites exactly the words
  of the addressed range. The code calls \<^verbatim>\<open>current->setValue(i, ...)\<close> with the logical
  address \<open>i\<close> as the index into the values. On a table that starts at address 2 and holds
  four words, writing the one word 7 at address 2 succeeds and stores it at position 2,
  the word of address 4; position 0, the word of address 2, keeps its value.
\<close>

theorem setData_ignores_startAddress:
  "setData (coilsServer 2 [0,0,0,0]) \<lparr>m_type = Coils, m_startAddress = 2, m_values = [7]\<rparr>
     = (True, coilsServer 2 [0,0,7,0])"
  by (simp add: setData_def coilsServer_def isValid_def valueCount_def to_uint_def to_int_def
      setValue_def value_at_def numeral_eq_Suc)

subsection \<open>Rounding a count up to whole bytes\<close>

lemma div_mod8: obtains q r :: nat where "k = 8 * q + r" "r < 8" "k div 8 = q" "k mod 8 = r"
proof
  show "k = 8 * (k div 8) + k mod 8" "k mod 8 < 8" "k div 8 = k div 8" "k mod 8 = k mod 8"
    by simp_all
qed

lemma ceil8: "(k + 7) div 8 = (if k mod 8 = 0 then k div 8 else k div 8 + 1)" for k :: nat
proof -
  obtain q r where k: "k = 8 * q + r" and r: "r < 8" and q: "k div 8 = q" "k mod 8 = r"
    by (rule div_mod8)
  show ?thesis
  proof (cases "r = 0")
    case True
    then have "k + 7 = 8 * q + 7" using k by simp
    then have "(k + 7) div 8 = q" by simp
    with True q show ?thesis by simp
  next
    case False
    then obtain r' where r': "r = Suc r'" "r' < 7" using r by (cases r) auto
    have "k + 7 = 8 * (q + 1) + r'" using k r' by simp
    then have "(k + 7) div 8 = q + 1" using r' by simp
    with False q show ?thesis by simp
  qed
qed

lemma below_multiple8: "n mod 8 = 0 \<Longrightarrow> q < n div 8 \<Longrightarrow> j < 8 \<Longrightarrow> 8 * q + j < n" for n :: nat
proof -
  assume a: "n mod 8 = 0" "q < n div 8" "j < 8"
  obtain q' r where n: "n = 8 * q' + r" and q: "n div 8 = q'" "n mod 8 = r"
    by (rule div_mod8)
  from a q have "r = 0" "q < q'" by simp_all
  with n a(3) show ?thesis by linarith
qed

lemma less_next_multiple8: "n < (n div 8 + 1) * 8" for n :: nat
proof -
  obtain q r where n: "n = 8 * q + r" and r: "r < 8" and q: "n div 8 = q"
    by (rule div_mod8)
  have "n < (q + 1) * 8" using n r by simp
  then show ?thesis by (simp only: q)
qed

lemma ceil8_bounds:
  fixes n :: nat
  assumes "1 \<le> n"
  shows "1 \<le> (n + 7) div 8" and "8 * ((n + 7) div 8 - 1) < n" and "n \<le> 8 * ((n + 7) div 8)"
proof -
  obtain q r where n: "n = 8 * q + r" and r: "r < 8" and q: "n div 8 = q" "n mod 8 = r"
    by (rule div_mod8)
  have c: "(n + 7) div 8 = (if r = 0 then q else q + 1)" by (simp add: ceil8 q)
  show "1 \<le> (n + 7) div 8" unfolding c using assms n by (cases "r = 0") simp_all
  show "8 * ((n + 7) div 8 - 1) < n" unfolding c using assms n r by (cases "r = 0") simp_all
  show "n \<le> 8 * ((n + 7) div 8)" unfolding c using n r by (cases "r = 0") simp_all
qed

subsection \<open>Write Multiple Coils: the value check\<close>

lemma unat_expectedBytes:
  fixes n :: quint16
  assumes "n \<le> 0x07B0"
  shows "unat ((if n mod 8 \<noteq> 0 then (ucast (n div 8) :: quint8) + 1 else ucast (n div 8)))
          = (unat n + 7) div 8"
proof -
  have n: "unat n \<le> 1968" using assms by (simp add: word_le_nat_alt)
  have d: "unat (n div 8) = unat n div 8" by (simp add: unat_div)
  have "unat (n mod 8) = unat n mod 8" by (simp add: unat_mod)
  then have m: "(n mod 8 \<noteq> 0) = (unat n mod 8 \<noteq> 0)"
    by (simp add: unat_eq_zero[symmetric] del: unat_eq_zero)
  have u: "unat (ucast (n div 8) :: quint8) = unat n div 8"
    using n d by (simp add: unsigned_ucast_eq take_bit_eq_mod)
  have u1: "unat ((ucast (n div 8) :: quint8) + 1) = unat n div 8 + 1"
    using n u by (simp add: unat_word_ariths)
  show ?thesis
    unfolding m using u u1 by (simp add: ceil8)
qed

lemma illegal_value_condition:
  fixes n :: quint16 and byteCount :: quint8
  shows "(n < 0x0001 \<or> n > 0x07B0
           \<or> (if n mod 8 \<noteq> 0 then (ucast (n div 8) :: quint8) + 1 else ucast (n div 8)) \<noteq> byteCount)
       = (unat n < 1 \<or> unat n > 1968 \<or> unat byteCount \<noteq> (unat n + 7) div 8)"
proof -
  define eb where "eb = (if n mod 8 \<noteq> 0 then (ucast (n div 8) :: quint8) + 1 else ucast (n div 8))"
  have lo: "(n < 0x0001) = (unat n < 1)" by (simp add: word_less_nat_alt)
  have hi: "(n > 0x07B0) = (unat n > 1968)" by (simp add: word_less_nat_alt)
  have ne: "(eb \<noteq> byteCount) = (unat eb \<noteq> unat byteCount)"
    by (simp add: word_unat_eq_iff)
  have eb: "\<not> unat n > 1968 \<Longrightarrow> unat eb = (unat n + 7) div 8"
    unfolding eb_def by (rule unat_expectedBytes) (simp add: word_le_nat_alt)
  have "(n < 0x0001 \<or> n > 0x07B0 \<or> eb \<noteq> byteCount)
       = (unat n < 1 \<or> unat n > 1968 \<or> unat byteCount \<noteq> (unat n + 7) div 8)"
    unfolding lo hi ne using eb by auto
  then show ?thesis unfolding eb_def .
qed

text \<open>
  C6. For a request that decodes to \<open>address\<close>, \<open>numberOfCoils\<close> and \<open>byteCount\<close>, the
  handler answers IllegalDataValue iff the count is below 1, above 1968, or the byte count
  differs from the count divided by 8 and rounded up; and whenever it answers with an
  exception response, the state (so the coils table) is the one it started with.
\<close>

theorem processWriteMultipleCoilsRequest_IllegalDataValue:
  assumes "decodeData3 (pduData request) = Some (address, numberOfCoils, byteCount)"
  shows "((\<exists>code s'. processWriteMultipleCoilsRequest s request
                 = Inr (QModbusExceptionResponse code IllegalDataValue, s'))
          \<longleftrightarrow> (unat numberOfCoils < 1 \<or> unat numberOfCoils > 1968
                 \<or> unat byteCount \<noteq> (unat numberOfCoils + 7) div 8))
       \<and> (\<forall>code e s'. processWriteMultipleCoilsRequest s request
                 = Inr (QModbusExceptionResponse code e, s') \<longrightarrow> s' = s)"
proof -
  let ?bad = "numberOfCoils < 0x0001 \<or> numberOfCoils > 0x07B0
     \<or> (if numberOfCoils mod 8 \<noteq> 0 then (ucast (numberOfCoils div 8) :: quint8) + 1
         else ucast (numberOfCoils div 8)) \<noteq> byteCount"
  have bad: "?bad \<Longrightarrow> processWriteMultipleCoilsRequest s request
      = Inr (QModbusExceptionResponse (functionCode request) IllegalDataValue, s)"
    using assms by (simp add: processWriteMultipleCoilsRequest_def Let_def)
  have good: "\<not> ?bad \<Longrightarrow> processWriteMultipleCoilsRequest s request
      \<noteq> Inr (QModbusExceptionResponse code IllegalDataValue, s')" for code s'
    using assms by (auto simp: processWriteMultipleCoilsRequest_def Let_def split: sum.splits)
  have iff: "(\<exists>code s'. processWriteMultipleCoilsRequest s request
                 = Inr (QModbusExceptionResponse code IllegalDataValue, s')) \<longleftrightarrow> ?bad"
    using bad good by blast
  have same: "processWriteMultipleCoilsRequest s request
                 = Inr (QModbusExceptionResponse code e, s') \<Longrightarrow> s' = s" for code e s'
    using assms by (auto simp: processWriteMultipleCoilsRequest_def Let_def split: sum.splits if_splits)
  show ?thesis
    unfolding iff illegal_value_condition using same by blast
qed

theorem processWriteMultipleCoilsRequest_IllegalDataValue_witness:
  "decodeData3 [0,0,0,3,2,5] = Some (0, 3, 2)
   \<and> (\<exists>code. processWriteMultipleCoilsRequest (coilsServer 0 [0,0,0,0,0,0,0,0])
           \<lparr>functionCode = WriteMultipleCoils, pduData = [0,0,0,3,2,5]\<rparr>
         = Inr (QModbusExceptionResponse code IllegalDataValue, coilsServer 0 [0,0,0,0,0,0,0,0]))"
proof -
  let ?s = "coilsServer 0 [0,0,0,0,0,0,0,0]"
  let ?r = "\<lparr>functionCode = WriteMultipleCoils, pduData = [0,0,0,3,2,5]\<rparr>"
  have d: "decodeData3 (pduData ?r) = Some (0, 3, 2)"
    by (simp add: word16_def)
  have bad: "unat (3::quint16) < 1 \<or> unat (3::quint16) > 1968
               \<or> unat (2::quint8) \<noteq> (unat (3::quint16) + 7) div 8"
    by simp
  note t = processWriteMultipleCoilsRequest_IllegalDataValue [OF d, of ?s]
  from t bad obtain code s' where
    r: "processWriteMultipleCoilsRequest ?s ?r = Inr (QModbusExceptionResponse code IllegalDataValue, s')"
    by blast
  with t have "s' = ?s" by blast
  with r d show ?thesis by auto
qed

subsection \<open>data and setData: the empty range\<close>

lemma to_int_to_uint_pred: "to_int (to_uint (to_uint x - 1)) = to_int (x - 1)"
proof -
  have "(x mod 4294967296 - 1) mod 4294967296 = (x - 1) mod (4294967296::int)"
    by (rule mod_diff_left_eq)
  then have "((x mod 4294967296 - 1) mod 4294967296 + 2147483648) mod 4294967296
           = ((x - 1) mod 4294967296 + 2147483648) mod (4294967296::int)"
    by simp
  also have "\<dots> = (x - 1 + 2147483648) mod 4294967296"
    by (rule mod_add_left_eq)
  finally show ?thesis
    by (simp add: to_int_def to_uint_def)
qed

lemma to_int_id: "- 2147483648 \<le> x \<Longrightarrow> x < 2147483648 \<Longrightarrow> to_int x = x"
  by (simp add: to_int_def)

lemma to_int_less: "to_int x < 2147483648"
proof -
  have "(x + 2147483648) mod 4294967296 < (4294967296::int)"
    by (rule pos_mod_bound) simp
  then show ?thesis by (simp add: to_int_def)
qed

lemma empty_rangeEnd:
  assumes "0 \<le> a"
  shows "to_int (to_uint (to_uint (a + 0) - 1)) < a"
proof (cases "a < 2147483648")
  case True
  with assms have "to_int (a - 1) = a - 1" by (intro to_int_id) simp_all
  then show ?thesis by (simp add: to_int_to_uint_pred)
next
  case False
  with to_int_less [of "a - 1"] show ?thesis by (simp add: to_int_to_uint_pred)
qed

lemma rangeEnd_exact:
  assumes "0 \<le> a" and "1 \<le> n" and "a + n \<le> 2147483648"
  shows "to_int (to_uint (to_uint (a + n) - 1)) = a + n - 1"
  using assms by (simp add: to_int_to_uint_pred to_int_id)

text \<open>
  C10 (fails as stated). The claim: on every valid table, a query or a write of at least
  one value at the table's own start address that fits in the table succeeds. The code
  computes the table's last address as an \<^verbatim>\<open>int\<close>. A table of four words that starts at
  2147483646 ends beyond the largest \<^verbatim>\<open>int\<close>: the computed end address is negative, and
  a one-word query or write at the table's start returns false.
\<close>

theorem data_setData_last_address_counterexample:
  "isValid (m_coils (coilsServer 2147483646 [0,0,0,0]))
   \<and> \<not> fst (data (coilsServer 2147483646 [0,0,0,0])
              (Some \<lparr>m_type = Coils, m_startAddress = 2147483646, m_values = [0]\<rparr>))
   \<and> \<not> fst (setData (coilsServer 2147483646 [0,0,0,0])
              \<lparr>m_type = Coils, m_startAddress = 2147483646, m_values = [0]\<rparr>)"
  by (simp add: data_def setData_def coilsServer_def isValid_def valueCount_def
      to_uint_def to_int_def)

text \<open>
  C10 as amended. On a valid table with a non-negative start address, a query or a write
  at the table's own start address with no values returns false; one with at least one
  value that fits in the table returns true, provided the table's last address is
  representable as an \<^verbatim>\<open>int\<close> (\<open>startAddress + valueCount \<le> 2^31\<close>).
\<close>

theorem data_setData_empty_range:
  assumes sel: "selectTable s kind = Some current"
    and valid: "isValid current"
    and start: "0 \<le> m_startAddress current"
  shows "\<not> fst (data s (Some \<lparr>m_type = kind, m_startAddress = m_startAddress current, m_values = []\<rparr>))
       \<and> \<not> fst (setData s \<lparr>m_type = kind, m_startAddress = m_startAddress current, m_values = []\<rparr>)
       \<and> (\<forall>vs. vs \<noteq> [] \<and> length vs \<le> length (m_values current)
                \<and> m_startAddress current + int (length (m_values current)) \<le> 2147483648
            \<longrightarrow> fst (data s (Some \<lparr>m_type = kind, m_startAddress = m_startAddress current,
                          m_values = vs\<rparr>))
              \<and> fst (setData s \<lparr>m_type = kind, m_startAddress = m_startAddress current,
                          m_values = vs\<rparr>))"
proof (intro conjI allI impI)
  note e = empty_rangeEnd [OF start]
  show "\<not> fst (data s (Some \<lparr>m_type = kind, m_startAddress = m_startAddress current, m_values = []\<rparr>))"
    using sel start e by (simp add: data_def Let_def valueCount_def)
  show "\<not> fst (setData s \<lparr>m_type = kind, m_startAddress = m_startAddress current, m_values = []\<rparr>)"
    using sel e by (simp add: setData_def Let_def valueCount_def)
next
  fix vs :: "quint16 list"
  assume h: "vs \<noteq> [] \<and> length vs \<le> length (m_values current)
                \<and> m_startAddress current + int (length (m_values current)) \<le> 2147483648"
  then have n1: "1 \<le> int (length vs)" by (cases vs) simp_all
  from h have c1: "1 \<le> int (length (m_values current))" using n1 by linarith
  have ne: "m_values current \<noteq> []" using h by (cases "m_values current") auto
  have fit: "m_startAddress current + int (length vs) \<le> 2147483648" using h by linarith
  have re: "to_int (to_uint (to_uint (m_startAddress current + int (length vs)) - 1))
              = m_startAddress current + int (length vs) - 1"
    using start n1 fit by (rule rangeEnd_exact)
  have ie: "to_int (to_uint (to_uint (m_startAddress current + int (length (m_values current))) - 1))
              = m_startAddress current + int (length (m_values current)) - 1"
    using start c1 h by (intro rangeEnd_exact) simp_all
  show "fst (data s (Some \<lparr>m_type = kind, m_startAddress = m_startAddress current, m_values = vs\<rparr>))"
    using sel start h ne by (simp add: data_def Let_def valueCount_def re ie)
  show "fst (setData s \<lparr>m_type = kind, m_startAddress = m_startAddress current, m_values = vs\<rparr>)"
    using sel valid start h ne by (simp add: setData_def Let_def valueCount_def re ie)
qed

theorem data_setData_empty_range_witness:
  "\<not> fst (data (coilsServer 2 [1,2,3,4]) (Some \<lparr>m_type = Coils, m_startAddress = 2, m_values = []\<rparr>))
   \<and> \<not> fst (setData (coilsServer 2 [1,2,3,4]) \<lparr>m_type = Coils, m_startAddress = 2, m_values = []\<rparr>)
   \<and> fst (data (coilsServer 2 [1,2,3,4]) (Some \<lparr>m_type = Coils, m_startAddress = 2, m_values = [9]\<rparr>))
   \<and> fst (setData (coilsServer 2 [1,2,3,4]) \<lparr>m_type = Coils, m_startAddress = 2, m_values = [9]\<rparr>)"
proof -
  let ?s = "coilsServer 2 [1,2,3,4]"
  let ?c = "\<lparr>m_type = Coils, m_startAddress = 2, m_values = [1,2,3,4]\<rparr>"
  have sel: "selectTable ?s Coils = Some ?c" by (simp add: coilsServer_def)
  have valid: "isValid ?c" by (simp add: isValid_def)
  have start: "0 \<le> m_startAddress ?c" by simp
  from data_setData_empty_range [OF sel valid start] show ?thesis
    by simp
qed

subsection \<open>Packing coils into bytes\<close>

lemma bit_assign_bit:
  "currentBit < 8 \<Longrightarrow> bit (assign_bit byte currentBit b) j = (if j = currentBit then b else bit byte j)"
  by (auto simp: assign_bit_def bit_set_bit_iff bit_unset_bit_iff dest: bit_imp_le_length)

lemma fillByte_ok:
  "currentBit \<le> 8 \<Longrightarrow> address + (8 - currentBit) \<le> length ds \<Longrightarrow>
     \<exists>byte'. fillByte ds byte address currentBit = Inr (byte', address + (8 - currentBit))
       \<and> (\<forall>j. bit byte' j = (if currentBit \<le> j \<and> j < 8
                               then ds ! (address + (j - currentBit)) \<noteq> 0 else bit byte j))"
proof (induction ds byte address currentBit rule: fillByte.induct)
  case (1 ds byte address currentBit)
  show ?case
  proof (cases "currentBit < 8")
    case False
    with "1.prems" have "currentBit = 8" by simp
    then show ?thesis by (auto simp: fillByte.simps)
  next
    case True
    with "1.prems" have a: "address < length ds" by simp
    from True "1.prems" have p: "currentBit + 1 \<le> 8" "address + 1 + (8 - (currentBit + 1)) \<le> length ds"
      by simp_all
    from "1.IH" [OF True a p] obtain byte' where
      r: "fillByte ds (assign_bit byte currentBit (ds ! address \<noteq> 0)) (address + 1) (currentBit + 1)
            = Inr (byte', address + 1 + (8 - (currentBit + 1)))"
      and b: "\<And>j. bit byte' j = (if currentBit + 1 \<le> j \<and> j < 8
                 then ds ! (address + 1 + (j - (currentBit + 1))) \<noteq> 0
                 else bit (assign_bit byte currentBit (ds ! address \<noteq> 0)) j)"
      by blast
    have eq: "fillByte ds byte address currentBit = Inr (byte', address + (8 - currentBit))"
      using True a r by (subst fillByte.simps) simp
    have "bit byte' j = (if currentBit \<le> j \<and> j < 8
                               then ds ! (address + (j - currentBit)) \<noteq> 0 else bit byte j)" for j
    proof (cases "j = currentBit")
      case True
      then show ?thesis using b [of j] \<open>currentBit < 8\<close> by (simp add: bit_assign_bit)
    next
      case False
      then show ?thesis using b [of j] \<open>currentBit < 8\<close>
        by (auto simp: bit_assign_bit Suc_diff_Suc)
    qed
    with eq show ?thesis by blast
  qed
qed

lemma packBytes_ok:
  "i \<le> byteCount \<Longrightarrow> address + 8 * (byteCount - i) \<le> length ds \<Longrightarrow>
     \<exists>bs. packBytes ds byteCount address i bytes = Inr (bytes @ bs)
       \<and> length bs = byteCount - i
       \<and> (\<forall>q < byteCount - i. \<forall>j < 8. bit (bs ! q) j = (ds ! (address + 8 * q + j) \<noteq> 0))"
proof (induction ds byteCount address i bytes rule: packBytes.induct)
  case (1 ds byteCount address i bytes)
  show ?case
  proof (cases "i < byteCount")
    case False
    then show ?thesis by (simp add: packBytes.simps)
  next
    case True
    with "1.prems" have room: "address + (8 - 0) \<le> length ds" by simp
    from fillByte_ok [OF _ room, of 0] obtain byte where
      f: "fillByte ds 0 address 0 = Inr (byte, address + 8)"
      and fb: "\<And>j. j < 8 \<Longrightarrow> bit byte j = (ds ! (address + j) \<noteq> 0)"
      by auto
    from True "1.prems" have p: "i + 1 \<le> byteCount" "address + 8 + 8 * (byteCount - (i + 1)) \<le> length ds"
      by simp_all
    from "1.IH" [OF True f [symmetric, THEN sym] refl p]
    obtain bs where
      r: "packBytes ds byteCount (address + 8) (i + 1) (bytes @ [byte]) = Inr ((bytes @ [byte]) @ bs)"
      and l: "length bs = byteCount - (i + 1)"
      and b: "\<And>q j. q < byteCount - (i + 1) \<Longrightarrow> j < 8 \<Longrightarrow>
                bit (bs ! q) j = (ds ! (address + 8 + 8 * q + j) \<noteq> 0)"
      by blast
    have eq: "packBytes ds byteCount address i bytes = Inr (bytes @ (byte # bs))"
      using True f r by (subst packBytes.simps) simp
    have len: "length (byte # bs) = byteCount - i" using l True by simp
    have "bit ((byte # bs) ! q) j = (ds ! (address + 8 * q + j) \<noteq> 0)"
      if "q < byteCount - i" "j < 8" for q j
    proof (cases q)
      case 0
      then show ?thesis using fb that by simp
    next
      case (Suc q')
      with that have "q' < byteCount - (i + 1)" by simp
      from b [OF this that(2)] Suc show ?thesis by (simp add: algebra_simps)
    qed
    with eq len show ?thesis by blast
  qed
qed

lemma unat_of_nat16: "n < 65536 \<Longrightarrow> unat (of_nat n :: quint16) = n"
  by (simp add: unat_of_nat)

lemma packCoils_ok:
  fixes bs :: "bool list"
  assumes n1: "1 \<le> length bs" and n2: "length bs \<le> 2000"
  shows "\<exists>byteCount bytes.
           packCoils (map of_bool bs) (of_nat (length bs)) = Inr (byteCount, bytes)
         \<and> unat byteCount = (length bs + 7) div 8
         \<and> length bytes = (length bs + 7) div 8
         \<and> (\<forall>q < (length bs + 7) div 8. \<forall>j < 8.
               bit (bytes ! q) j = (8 * q + j < length bs \<and> bs ! (8 * q + j)))"
proof -
  define n where "n = length bs"
  define xs :: "quint16 list" where "xs = map of_bool bs"
  have lx: "length xs = n" by (simp add: xs_def n_def)
  have n: "1 \<le> n" "n \<le> 2000" using n1 n2 by (simp_all add: n_def)
  have un: "unat (of_nat n :: quint16) = n" using n by (simp add: unat_of_nat16)
  have d: "unat ((of_nat n :: quint16) div 8) = n div 8" by (simp add: unat_div un)
  have b0: "unat (ucast ((of_nat n :: quint16) div 8) :: quint8) = n div 8"
    using n d by (simp add: unsigned_ucast_eq take_bit_eq_mod)
  have b1: "unat ((ucast ((of_nat n :: quint16) div 8) :: quint8) + 1) = n div 8 + 1"
    using n b0 by (simp add: unat_word_ariths)
  have b1i: "uint ((ucast ((of_nat n :: quint16) div 8) :: quint8) + 1) = 1 + int (n div 8)"
    using b1 by (simp add: uint_nat)
  have xnz: "(xs ! i \<noteq> 0) = bs ! i" if "i < n" for i
    using that by (simp add: xs_def n_def)
  show ?thesis
  proof (cases "n mod 8 = 0")
    case True
    then have bc: "(n + 7) div 8 = n div 8" by (simp add: ceil8)
    have room: "0 + 8 * (n div 8 - 0) \<le> length xs" using True lx by simp
    from packBytes_ok [OF _ room, of "[]"] obtain bytes where
      p: "packBytes xs (n div 8) 0 0 [] = Inr bytes" and l: "length bytes = n div 8"
      and b: "\<And>q j. q < n div 8 \<Longrightarrow> j < 8 \<Longrightarrow> bit (bytes ! q) j = (xs ! (8 * q + j) \<noteq> 0)"
      by auto
    have pc: "packCoils xs (of_nat n) = Inr (ucast ((of_nat n :: quint16) div 8), bytes)"
      using True lx p by (simp add: packCoils_def Let_def b0)
    have "bit (bytes ! q) j = (8 * q + j < n \<and> bs ! (8 * q + j))" if "q < n div 8" "j < 8" for q j
    proof -
      have "8 * q + j < n" by (rule below_multiple8 [OF True that])
      with b [OF that] xnz show ?thesis by simp
    qed
    with pc l b0 bc show ?thesis unfolding xs_def [symmetric] n_def [symmetric] by auto
  next
    case False
    then have bc: "(n + 7) div 8 = n div 8 + 1" by (simp add: ceil8)
    define m where "m = (n div 8 + 1) * 8"
    have mn: "n < m" unfolding m_def by (rule less_next_multiple8)
    define ys where "ys = insert_n (resize xs m) n (int m - int n) 0"
    have ys: "ys = xs @ replicate (m - n) 0 @ replicate (m - n) 0"
      using mn lx by (simp add: ys_def insert_n_def resize_def nat_diff_distrib')
    have room: "0 + 8 * (n div 8 + 1 - 0) \<le> length ys" using mn lx by (simp add: ys m_def)
    from packBytes_ok [OF _ room, of "[]"] obtain bytes where
      p: "packBytes ys (n div 8 + 1) 0 0 [] = Inr bytes" and l: "length bytes = n div 8 + 1"
      and b: "\<And>q j. q < n div 8 + 1 \<Longrightarrow> j < 8 \<Longrightarrow> bit (bytes ! q) j = (ys ! (8 * q + j) \<noteq> 0)"
      by auto
    have pc: "packCoils xs (of_nat n)
                = Inr ((ucast ((of_nat n :: quint16) div 8) :: quint8) + 1, bytes)"
      using False lx p by (simp add: packCoils_def Let_def b1 b1i un ys_def m_def)
    have "bit (bytes ! q) j = (8 * q + j < n \<and> bs ! (8 * q + j))" if "q < n div 8 + 1" "j < 8" for q j
    proof (cases "8 * q + j < n")
      case True
      then have "ys ! (8 * q + j) = xs ! (8 * q + j)" by (simp add: ys nth_append lx)
      with b [OF that] xnz [OF True] True show ?thesis by simp
    next
      case False
      from that have "8 * q + j < m" unfolding m_def by simp
      with False have "ys ! (8 * q + j) = 0"
        by (auto simp: ys nth_append lx)
      with b [OF that] False show ?thesis by simp
    qed
    with pc l b1 bc show ?thesis unfolding xs_def [symmetric] n_def [symmetric] by auto
  qed
qed

subsection \<open>Unpacking bytes into coils\<close>

lemma drop_update_same:
  "i < length xs \<Longrightarrow> drop i (xs[i := v]) = v # drop (Suc i) xs"
  by (simp add: upd_conv_take_nth_drop)

lemma writeBits_ok:
  "k \<le> unat coil \<Longrightarrow> unat coil \<le> length vals \<Longrightarrow>
     writeBits vals coil currentByte k
       = Inr (take (unat coil - k) vals @ map (\<lambda>j. of_bool (bit currentByte j)) [0..<k]
                @ drop (unat coil) vals,
              coil - of_nat k)"
proof (induction k arbitrary: vals coil)
  case 0
  then show ?case by simp
next
  case (Suc k)
  let ?c = "unat coil"
  from Suc.prems have nz: "coil \<noteq> 0" by (auto simp: unat_eq_zero)
  then have u: "unat (coil - 1) = ?c - 1" by (rule unat_minus_one)
  from Suc.prems have c: "0 < ?c" "?c - 1 < length vals" "k \<le> ?c - 1" by simp_all
  let ?v = "vals[?c - 1 := of_bool (bit currentByte k)]"
  have ih: "writeBits ?v (coil - 1) currentByte k
       = Inr (take (unat (coil - 1) - k) ?v @ map (\<lambda>j. of_bool (bit currentByte j)) [0..<k]
                @ drop (unat (coil - 1)) ?v,
              coil - 1 - of_nat k)"
    by (rule Suc.IH) (use c u Suc.prems in simp_all)
  have t: "take (?c - 1 - k) ?v = take (?c - Suc k) vals" by simp
  have d: "drop (?c - 1) ?v = of_bool (bit currentByte k) # drop ?c vals"
    using drop_update_same [OF c(2), of "of_bool (bit currentByte k)"] c(1) by simp
  show ?case
    using c ih unfolding u t d by (simp add: Let_def u del: of_bool_eq_iff)
qed

lemma writeBytes_ok:
  "currentBit + 8 * length bytes \<le> unat coil \<Longrightarrow> unat coil \<le> length vals \<Longrightarrow>
     writeBytes vals coil currentBit (currentByte # bytes)
       = Inr (take (unat coil - (currentBit + 8 * length bytes)) vals
              @ concat (map (\<lambda>b. map (\<lambda>j. of_bool (bit b j)) [0..<8]) (rev bytes))
              @ map (\<lambda>j. of_bool (bit currentByte j)) [0..<currentBit]
              @ drop (unat coil) vals)"
proof (induction bytes arbitrary: vals coil currentBit currentByte)
  case Nil
  then show ?case by (simp add: writeBits_ok)
next
  case (Cons b bytes)
  let ?c = "unat coil"
  let ?v = "take (?c - currentBit) vals @ map (\<lambda>j. of_bool (bit currentByte j)) [0..<currentBit]
              @ drop ?c vals"
  from Cons.prems have cb: "currentBit \<le> ?c" by simp
  have cb16: "currentBit < 65536" using cb unsigned_less [of coil, where 'a = nat] by simp
  have uc: "unat (coil - of_nat currentBit) = ?c - currentBit"
    using cb cb16 by (simp add: unat_sub word_le_nat_alt unat_of_nat)
  have wb: "writeBits vals coil currentByte currentBit = Inr (?v, coil - of_nat currentBit)"
    using cb Cons.prems(2) by (rule writeBits_ok)
  have lv: "length ?v = length vals" using cb Cons.prems(2) by simp
  have ih: "writeBytes ?v (coil - of_nat currentBit) 8 (b # bytes)
       = Inr (take (unat (coil - of_nat currentBit) - (8 + 8 * length bytes)) ?v
              @ concat (map (\<lambda>b. map (\<lambda>j. of_bool (bit b j)) [0..<8]) (rev bytes))
              @ map (\<lambda>j. of_bool (bit b j)) [0..<8]
              @ drop (unat (coil - of_nat currentBit)) ?v)"
    by (rule Cons.IH) (use Cons.prems uc lv in simp_all)
  have t: "take (?c - currentBit - (8 + 8 * length bytes)) ?v
             = take (?c - (currentBit + 8 * length (b # bytes))) vals"
    using cb Cons.prems by (simp add: min_def)
  have d: "drop (?c - currentBit) ?v
             = map (\<lambda>j. of_bool (bit currentByte j)) [0..<currentBit] @ drop ?c vals"
    using cb Cons.prems by (simp add: min_def)
  have step: "writeBytes vals coil currentBit (currentByte # b # bytes)
                = writeBytes ?v (coil - of_nat currentBit) 8 (b # bytes)"
    unfolding writeBytes.simps(2) [of vals coil currentBit currentByte "b # bytes"] wb by simp
  show ?case
    unfolding step ih [unfolded uc t d] by simp
qed

lemma concat_bits_nth:
  "i < 8 * length p \<Longrightarrow>
     concat (map (\<lambda>b. map (\<lambda>j. of_bool (bit b j)) [0..<8]) p) ! i
       = (of_bool (bit (p ! (i div 8)) (i mod 8)) :: quint16)"
proof (induction p arbitrary: i)
  case Nil
  then show ?case by simp
next
  case (Cons b p)
  show ?case
  proof (cases "i < 8")
    case True
    then show ?thesis by (simp add: nth_append del: upt_Suc)
  next
    case False
    then obtain i' where i: "i = 8 + i'" by (metis le_add_diff_inverse not_less)
    with Cons.prems have "i' < 8 * length p" by simp
    moreover have "(8 + i') div 8 = Suc (i' div 8)" by simp
    ultimately show ?thesis
      using Cons.IH [of i'] by (simp add: i nth_append del: upt_Suc)
  qed
qed

subsection \<open>The round trip\<close>

text \<open>
  C5. For 1 to 1968 boolean values, stored as the words 0 and 1: the Read Coils packing
  returns the count divided by 8, rounded up, as byte count and as many bytes, and the
  Write Multiple Coils unpacking of these bytes, at address 0 over any prior contents of
  the same length, gives back exactly the original values.
\<close>

theorem pack_unpack_roundtrip:
  fixes bs :: "bool list"
  assumes n1: "1 \<le> length bs" and n2: "length bs \<le> 1968" and lv: "length vals = length bs"
  shows "\<exists>byteCount bytes.
           packCoils (map of_bool bs) (of_nat (length bs)) = Inr (byteCount, bytes)
         \<and> unat byteCount = (length bs + 7) div 8
         \<and> length bytes = (length bs + 7) div 8
         \<and> unpackCoils vals 0 (of_nat (length bs)) byteCount bytes = Inr (map of_bool bs)"
proof -
  define n where "n = length bs"
  define m where "m = (n + 7) div 8"
  have n: "1 \<le> n" "n \<le> 1968" "length vals = n" using n1 n2 lv by (simp_all add: n_def)
  from n2 have "length bs \<le> 2000" by simp
  from packCoils_ok [OF n1 this] obtain byteCount bytes where
    pc: "packCoils (map of_bool bs) (of_nat n) = Inr (byteCount, bytes)"
    and ub: "unat byteCount = m" and lb: "length bytes = m"
    and bits: "\<And>q j. q < m \<Longrightarrow> j < 8 \<Longrightarrow> bit (bytes ! q) j = (8 * q + j < n \<and> bs ! (8 * q + j))"
    unfolding n_def [symmetric] m_def [symmetric] by blast
  have m1: "1 \<le> m" "8 * (m - 1) < n" "n \<le> 8 * m"
    using ceil8_bounds [OF n(1)] unfolding m_def by simp_all
  define cb where "cb = n - 8 * (m - 1)"
  have cb: "1 \<le> cb" "cb \<le> 8" "cb + 8 * (m - 1) = n" using m1 by (simp_all add: cb_def)
  have cbn: "nat (8 - (int (unat byteCount) * 8 - int (unat (of_nat n :: quint16)))) = cb"
    using n m1 cb by (simp add: ub unat_of_nat16 cb_def)
  have un: "unat (0 + of_nat n :: quint16) = n" using n by (simp add: unat_of_nat16)
  from lb m1 have ne: "bytes \<noteq> []" by auto
  then have rv: "rev bytes = last bytes # rev (butlast bytes)"
    by (metis rev.simps(2) snoc_eq_iff_butlast rev_rev_ident append_butlast_last_id)
  have lbl: "length (butlast bytes) = m - 1" by (simp add: lb)
  let ?f = "\<lambda>b. map (\<lambda>j. of_bool (bit b j) :: quint16) [0..<8]"
  let ?new = "concat (map ?f (butlast bytes)) @ map (\<lambda>j. of_bool (bit (last bytes) j)) [0..<cb]"
  have wb: "writeBytes vals (0 + of_nat n) cb (last bytes # rev (butlast bytes))
      = Inr (take (unat (0 + of_nat n :: quint16) - (cb + 8 * length (rev (butlast bytes)))) vals
              @ concat (map ?f (rev (rev (butlast bytes))))
              @ map (\<lambda>j. of_bool (bit (last bytes) j)) [0..<cb]
              @ drop (unat (0 + of_nat n :: quint16)) vals)"
    by (rule writeBytes_ok) (use un cb lbl n in simp_all)
  have up: "unpackCoils vals 0 (of_nat n) byteCount bytes = Inr ?new"
    unfolding unpackCoils_def cbn rv wb un using cb lbl n by simp
  have lconcat: "length (concat (map ?f (butlast bytes))) = 8 * (m - 1)"
    using lbl by (simp add: length_concat comp_def sum_list_triv del: upt_Suc)
  have "?new = map of_bool bs"
  proof (rule nth_equalityI)
    show "length ?new = length (map of_bool bs)"
      using lconcat cb by (simp add: n_def del: upt_Suc)
  next
    fix i assume "i < length ?new"
    then have i: "i < n" using lconcat cb by (simp del: upt_Suc)
    show "?new ! i = map of_bool bs ! i"
    proof (cases "i < 8 * (m - 1)")
      case True
      then have q: "i div 8 < m - 1" by simp
      then have qm: "i div 8 < m" by simp
      have "?new ! i = concat (map ?f (butlast bytes)) ! i"
        using True lconcat by (simp add: nth_append del: upt_Suc)
      also have "\<dots> = of_bool (bit (butlast bytes ! (i div 8)) (i mod 8))"
        using True lbl by (intro concat_bits_nth) simp
      finally have e1: "?new ! i = of_bool (bit (butlast bytes ! (i div 8)) (i mod 8))" .
      have "butlast bytes ! (i div 8) = bytes ! (i div 8)"
        using q lbl by (simp add: nth_butlast)
      moreover have "bit (bytes ! (i div 8)) (i mod 8) = bs ! i"
        using bits [OF qm, of "i mod 8"] i by simp
      ultimately have e2: "bit (butlast bytes ! (i div 8)) (i mod 8) = bs ! i" by simp
      show ?thesis unfolding e1 e2 using i by (simp add: n_def)
    next
      case False
      define j where "j = i - 8 * (m - 1)"
      have j: "j < cb" "i = 8 * (m - 1) + j" using False i cb by (simp_all add: j_def)
      have "?new ! i = map (\<lambda>j. of_bool (bit (last bytes) j)) [0..<cb] ! j"
        using False lconcat by (simp add: nth_append j_def del: upt_Suc)
      also have "\<dots> = of_bool (bit (last bytes) j)" using j by simp
      finally have e1: "?new ! i = of_bool (bit (last bytes) j)" .
      have "last bytes = bytes ! (m - 1)" using ne lb by (simp add: last_conv_nth)
      moreover have "bit (bytes ! (m - 1)) j = bs ! i"
        using bits [of "m - 1" j] j cb m1 i by simp
      ultimately have e2: "bit (last bytes) j = bs ! i" by simp
      show ?thesis unfolding e1 e2 using i by (simp add: n_def)
    qed
  qed
  with up have "unpackCoils vals 0 (of_nat n) byteCount bytes = Inr (map of_bool bs)"
    by (simp only:)
  with pc ub lb show ?thesis
    unfolding n_def [symmetric] m_def [symmetric] by blast
qed

theorem pack_unpack_roundtrip_witness:
  "\<exists>byteCount bytes.
      packCoils [1, 0, 1] 3 = Inr (byteCount, bytes)
    \<and> unat byteCount = 1 \<and> length bytes = 1
    \<and> unpackCoils [0, 0, 0] 0 3 byteCount bytes = Inr [1, 0, 1]"
  using pack_unpack_roundtrip [of "[True, False, True]" "[0, 0, 0]"] by simp

subsection \<open>The words of the coils table\<close>

text \<open>
  What the two write handlers store: Write Multiple Coils assigns bits, so every word it
  changes is 0 or 1; Write Single Coil assigns the value word of the request.
\<close>

lemma writeBits_words:
  "writeBits vals coil currentByte k = Inr (vals', coil') \<Longrightarrow>
     length vals' = length vals
     \<and> (\<forall>i < length vals. vals' ! i = vals ! i \<or> vals' ! i = 0 \<or> vals' ! i = 1)"
proof (induction k arbitrary: vals coil)
  case 0
  then show ?case by simp
next
  case (Suc k)
  let ?v = "vals[unat (coil - 1) := of_bool (bit currentByte k)]"
  from Suc.prems have r: "writeBits ?v (coil - 1) currentByte k = Inr (vals', coil')"
    by (simp add: Let_def split: if_splits split del: split_of_bool)
  from Suc.IH [OF r] have l: "length vals' = length vals"
    and w: "\<And>i. i < length vals \<Longrightarrow> vals' ! i = ?v ! i \<or> vals' ! i = 0 \<or> vals' ! i = 1"
    by simp_all
  have "vals' ! i = vals ! i \<or> vals' ! i = 0 \<or> vals' ! i = 1" if "i < length vals" for i
    using w [OF that] that by (cases "i = unat (coil - 1)") (auto simp: of_bool_def)
  with l show ?case by simp
qed

lemma writeBytes_words:
  "writeBytes vals coil currentBit bytes = Inr vals' \<Longrightarrow>
     length vals' = length vals
     \<and> (\<forall>i < length vals. vals' ! i = vals ! i \<or> vals' ! i = 0 \<or> vals' ! i = 1)"
proof (induction bytes arbitrary: vals coil currentBit)
  case Nil
  then show ?case by simp
next
  case (Cons b bytes)
  from Cons.prems obtain vals1 coil1 where
    wb: "writeBits vals coil b currentBit = Inr (vals1, coil1)"
    and r: "writeBytes vals1 coil1 8 bytes = Inr vals'"
    by (auto split: sum.splits)
  from writeBits_words [OF wb] have l1: "length vals1 = length vals"
    and w1: "\<And>i. i < length vals \<Longrightarrow> vals1 ! i = vals ! i \<or> vals1 ! i = 0 \<or> vals1 ! i = 1"
    by simp_all
  from Cons.IH [OF r] have l: "length vals' = length vals1"
    and w: "\<And>i. i < length vals1 \<Longrightarrow> vals' ! i = vals1 ! i \<or> vals' ! i = 0 \<or> vals' ! i = 1"
    by simp_all
  have "vals' ! i = vals ! i \<or> vals' ! i = 0 \<or> vals' ! i = 1" if "i < length vals" for i
    using w [of i] w1 [OF that] that l1 by auto
  with l l1 show ?case by simp
qed

lemma processWriteMultipleCoilsRequest_words:
  assumes "processWriteMultipleCoilsRequest s request = Inr (response, s')"
  shows "length (m_values (m_coils s')) = length (m_values (m_coils s))
       \<and> (\<forall>i < length (m_values (m_coils s)).
             m_values (m_coils s') ! i = m_values (m_coils s) ! i
             \<or> m_values (m_coils s') ! i = 0 \<or> m_values (m_coils s') ! i = 1)"
proof (cases "s' = s")
  case True
  then show ?thesis by simp
next
  case False
  with assms obtain address numberOfCoils byteCount vals where
    u: "unpackCoils (m_values (m_coils s)) address numberOfCoils byteCount
          (drop 5 (pduData request)) = Inr vals"
    and s': "s' = s\<lparr>m_coils := setValues (m_coils s) vals\<rparr>"
    by (auto simp: processWriteMultipleCoilsRequest_def Let_def
        split: option.splits if_splits sum.splits)
  from u have "writeBytes (m_values (m_coils s)) (address + numberOfCoils)
       (nat (8 - (int (unat byteCount) * 8 - int (unat numberOfCoils))))
       (rev (drop 5 (pduData request))) = Inr vals"
    by (simp only: unpackCoils_def)
  from writeBytes_words [OF this] show ?thesis
    by (simp add: s' setValues_def)
qed

lemma processWriteSingleCoilRequest_stores:
  assumes "processWriteSingleCoilRequest s request = Inr (QModbusResponse code payload, s')"
    and "decodeData2 (pduData request) = Some (address, val)"
  shows "(val = 0 \<or> val = 0xFF00)
       \<and> m_values (m_coils s') = (m_values (m_coils s))[unat address := val]"
  using assms
  by (auto simp: processWriteSingleCoilRequest_def Let_def setValues_def split: if_splits)

lemma writeSingleCoil_on_at_5:
  "processWriteSingleCoilRequest (coilsServer 0 [0,0,0,0,0,0,0,0])
       \<lparr>functionCode = code, pduData = [0,5,0xFF,0]\<rparr>
     = Inr (QModbusResponse code [0,5,0xFF,0], coilsServer 0 [0,0,0,0,0,0xFF00,0,0])"
proof -
  have d: "decodeData2 [0,5,0xFF,0] = Some (5, 0xFF00)"
    by (simp add: word16_def)
  have e: "encode16 5 @ encode16 0xFF00 = [0,5,0xFF,0]"
    by (simp add: encode16_def)
  have u5: "[0,0,0,0,0,0,0,0][5 := v] = [0,0,0,0,0,v,0,0]" for v :: quint16
    by (simp add: numeral_eq_Suc)
  have u: "[0,0,0,0,0,0,0,0][unat (5::quint16) := v] = [0,0,0,0,0,v,0,0]" for v :: quint16
    using u5 by simp
  show ?thesis
    by (simp add: processWriteSingleCoilRequest_def coilsServer_def
        to_uint_def valueCount_def setValues_def d e u del: decodeData2.simps)
qed

lemma writeMultipleCoils_on_at_5:
  "processWriteMultipleCoilsRequest (coilsServer 0 [0,0,0,0,0,0,0,0])
       \<lparr>functionCode = WriteMultipleCoils, pduData = [0,5,0,1,1,1]\<rparr>
     = Inr (QModbusResponse WriteMultipleCoils [0,5,0,1], coilsServer 0 [0,0,0,0,0,1,0,0])"
  by code_simp

text \<open>
  C3 (fails on the code). The claim: every dispatched request keeps each word of the coils
  table 0 or 1, a Write Single Coil with value 0xFF00 storing the word 1. The code
  assigns \<^verbatim>\<open>data[address] = value\<close>, the value word of the request. Switching coil 5 of a
  table of zeros on with Write Single Coil leaves the word 0xFF00 there, which is neither
  0 nor 1; switching the same coil on with Write Multiple Coils leaves the word 1.
\<close>

theorem processRequest_WriteSingleCoil_stores_0xFF00:
  "processRequest (coilsServer 0 [0,0,0,0,0,0,0,0])
       \<lparr>functionCode = WriteSingleCoil, pduData = [0,5,0xFF,0]\<rparr>
     = Inr (QModbusResponse WriteSingleCoil [0,5,0xFF,0], coilsServer 0 [0,0,0,0,0,0xFF00,0,0])
   \<and> m_values (m_coils (coilsServer 0 [0,0,0,0,0,0xFF00,0,0])) ! 5 = 0xFF00
   \<and> (0xFF00 :: quint16) \<noteq> 0 \<and> (0xFF00 :: quint16) \<noteq> 1
   \<and> processRequest (coilsServer 0 [0,0,0,0,0,0,0,0])
       \<lparr>functionCode = WriteMultipleCoils, pduData = [0,5,0,1,1,1]\<rparr>
     = Inr (QModbusResponse WriteMultipleCoils [0,5,0,1], coilsServer 0 [0,0,0,0,0,1,0,0])"
  by (simp add: processRequest_def writeSingleCoil_on_at_5 writeMultipleCoils_on_at_5)
    (simp add: coilsServer_def)

end
